theory Spec2Isabelle
  imports Complex_Main
begin

section \<open>The slicer's data\<close>

text \<open>
  The class \<^verbatim>\<open>Slicer\<close> of \<^verbatim>\<open>slicer.cpp\<close> holds the vertex and triangle buffers, the cutting
  plane and the private map of intersection points. A \<^verbatim>\<open>std::array<double, 3>\<close> is a triple of
  reals and a \<^verbatim>\<open>std::array<int, 3>\<close> a triple of integers.

  Numbers: a coordinate is a finite \<^verbatim>\<open>double\<close>, taken here as a real number, and the sums and
  products of \<^verbatim>\<open>get_lambda\<close> and of the interpolation are the exact ones (no rounding, no
  overflow). The one operation whose result need not be finite is the division that ends
  \<^verbatim>\<open>get_lambda\<close>; its IEEE results on a zero denominator are values of the type \<open>quotient\<close>.
  What is proved for every mesh about the calls and about a run of \<^verbatim>\<open>cut\<close> is stated in terms
  of the \<open>\<lambda>\<close> that \<^verbatim>\<open>get_lambda\<close> returns; where rounding would matter to the run, in its
  termination and in the number of new triangles, what exactness gives is stated as hypotheses
  of the theorem.
  Indices are of the C++ type \<^verbatim>\<open>int\<close>, taken as mathematical integers: a buffer is assumed to
  hold fewer than \<open>2^31\<close> elements, so that \<^verbatim>\<open>int m = positions.size()\<close> is exact.
\<close>

type_synonym Vector = "real \<times> real \<times> real"
type_synonym Triangle = "int \<times> int \<times> int"

record Slicer =
  positions :: "Vector list"
  triangles :: "Triangle list"
  origin :: Vector
  normal :: Vector
  intersections :: "(int \<times> int) \<rightharpoonup> int"

text \<open>The result of a division of doubles: a finite number, an infinity or NaN.\<close>

datatype quotient = Finite real | Infinite | NaN

text \<open>
  Reading a \<^verbatim>\<open>std::vector\<close> outside its bounds is undefined behaviour in the source; the model
  stops there with an error.
\<close>

datatype error = OutOfRange

definition at_index :: "'a list \<Rightarrow> int \<Rightarrow> error + 'a" where
  "at_index xs i = (if 0 \<le> i \<and> i < int (length xs) then Inr (xs ! nat i) else Inl OutOfRange)"

text \<open>\<^verbatim>\<open>a[n]\<close> on a \<^verbatim>\<open>std::array\<close> of three elements, for \<open>n\<close> among 0, 1, 2.\<close>

fun elem :: "'a \<times> 'a \<times> 'a \<Rightarrow> nat \<Rightarrow> 'a" where
  "elem (a, b, c) n = (if n = 0 then a else if n = 1 then b else c)"

section \<open>The geometry: \<^verbatim>\<open>get_lambda\<close>\<close>

definition precision :: real where
  "precision = 0.00001"

definition divide_double :: "real \<Rightarrow> real \<Rightarrow> quotient" where
  "divide_double num den =
     (if den \<noteq> 0 then Finite (num / den) else if num = 0 then NaN else Infinite)"

definition get_lambda :: "Slicer \<Rightarrow> Vector \<Rightarrow> Vector \<Rightarrow> quotient" where
  "get_lambda s p q =
     (let num = (elem (origin s) 0 - elem q 0) * elem (normal s) 0
              + (elem (origin s) 1 - elem q 1) * elem (normal s) 1
              + (elem (origin s) 2 - elem q 2) * elem (normal s) 2;
          den = (elem p 0 - elem q 0) * elem (normal s) 0
              + (elem p 1 - elem q 1) * elem (normal s) 1
              + (elem p 2 - elem q 2) * elem (normal s) 2
      in divide_double num den)"

section \<open>The intersection cache: \<^verbatim>\<open>get_intersection\<close>\<close>

text \<open>
  The function returns the index (or \<open>-1\<close>) together with the object as it has left it.
\<close>

definition get_intersection :: "Slicer \<Rightarrow> int \<Rightarrow> int \<Rightarrow> error + (int \<times> Slicer)" where
  "get_intersection s i0 j0 =
     (let i = (if i0 > j0 then j0 else i0);
          j = (if i0 > j0 then i0 else j0)
      in case at_index (positions s) i of
           Inl e \<Rightarrow> Inl e
         | Inr p \<Rightarrow>
        (case at_index (positions s) j of
           Inl e \<Rightarrow> Inl e
         | Inr q \<Rightarrow>
        (case get_lambda s p q of
           Finite lam \<Rightarrow>
             if lam < precision \<or> lam > 1 - precision then Inr (- 1, s)
             else
               (case intersections s (i, j) of
                  Some found \<Rightarrow> Inr (found, s)
                | None \<Rightarrow>
                    let m = int (length (positions s))
                    in Inr (m, s\<lparr>positions := positions s @
                                   [(lam * elem p 0 + (1 - lam) * elem q 0,
                                     lam * elem p 1 + (1 - lam) * elem q 1,
                                     lam * elem p 2 + (1 - lam) * elem q 2)],
                                 intersections := (intersections s)((i, j) \<mapsto> m)\<rparr>))
         | Infinite \<Rightarrow> Inr (- 1, s)
         | NaN \<Rightarrow> Inr (- 1, s))))"

section \<open>The retriangulation: \<^verbatim>\<open>do_triangle\<close> and \<^verbatim>\<open>cut\<close>\<close>

text \<open>
  The two mutations of the triangle buffer: \<^verbatim>\<open>triangles.push_back(t)\<close> and
  \<^verbatim>\<open>triangles[tid] = t\<close>.
\<close>

definition push_triangle :: "Slicer \<Rightarrow> Triangle \<Rightarrow> Slicer" where
  "push_triangle s t = s\<lparr>triangles := triangles s @ [t]\<rparr>"

definition set_triangle :: "Slicer \<Rightarrow> int \<Rightarrow> Triangle \<Rightarrow> Slicer" where
  "set_triangle s tid t = s\<lparr>triangles := (triangles s)[nat tid := t]\<rparr>"

text \<open>
  The loop \<^verbatim>\<open>for (int n=0 ; n<3 ; n++)\<close> of \<^verbatim>\<open>do_triangle\<close>, entered at \<open>n\<close>. The new triangle is
  pushed first, and the triangle at \<open>tid\<close> is overwritten after that.
\<close>

function do_triangle_from :: "nat \<Rightarrow> Slicer \<Rightarrow> int \<Rightarrow> error + (bool \<times> Slicer)" where
  "do_triangle_from n s tid =
     (if n < 3 then
        (case at_index (triangles s) tid of
           Inl e \<Rightarrow> Inl e
         | Inr t \<Rightarrow>
             let i = elem t n;
                 j = elem t ((n + 1) mod 3);
                 k = elem t ((n + 2) mod 3)
             in (case get_intersection s j k of
                   Inl e \<Rightarrow> Inl e
                 | Inr (m, s') \<Rightarrow>
                     if m \<noteq> - 1
                     then Inr (True, set_triangle (push_triangle s' (i, j, m)) tid (i, m, k))
                     else do_triangle_from (n + 1) s' tid))
      else Inr (False, s))"
  by pat_completeness auto
termination
  by (relation "measure (\<lambda>(n, s, tid). 3 - n)") auto

declare do_triangle_from.simps [simp del]

definition do_triangle :: "Slicer \<Rightarrow> int \<Rightarrow> error + (bool \<times> Slicer)" where
  "do_triangle s tid = do_triangle_from 0 s tid"

text \<open>
  The loop of \<^verbatim>\<open>cut\<close>: \<^verbatim>\<open>tid += !do_triangle(tid)\<close> stays on the triangle after a split and
  moves on otherwise. Nothing in the loop itself bounds the number of its iterations, so a run
  that never leaves it has the value \<open>None\<close>.
\<close>

partial_function (option) cut_loop :: "Slicer \<Rightarrow> nat \<Rightarrow> (error + Slicer) option" where
  "cut_loop s tid =
     (if tid < length (triangles s) then
        (case do_triangle s (int tid) of
           Inl e \<Rightarrow> Some (Inl e)
         | Inr (split, s') \<Rightarrow> cut_loop s' (tid + (if split then 0 else 1)))
      else Some (Inr s))"

declare cut_loop.simps [code]

definition cut :: "Slicer \<Rightarrow> (error + Slicer) option" where
  "cut s =
     (let s0 = s\<lparr>intersections := Map.empty\<rparr>
      in if elem (origin s0) 0 = 0 \<and> elem (origin s0) 1 = 0 \<and> elem (origin s0) 2 = 0
         then Some (Inr s0)
         else cut_loop s0 0)"

section \<open>Notions used to state the properties\<close>

subsection \<open>Valid meshes and a valid cache\<close>

definition valid_index :: "Slicer \<Rightarrow> int \<Rightarrow> bool" where
  "valid_index s i \<longleftrightarrow> 0 \<le> i \<and> i < int (length (positions s))"

definition valid_triangle :: "Slicer \<Rightarrow> Triangle \<Rightarrow> bool" where
  "valid_triangle s t \<longleftrightarrow>
     valid_index s (elem t 0) \<and> valid_index s (elem t 1) \<and> valid_index s (elem t 2)"

text \<open>Every triangle's three indices are valid indices into the vertex sequence.\<close>

definition mesh_valid :: "Slicer \<Rightarrow> bool" where
  "mesh_valid s \<longleftrightarrow> list_all (valid_triangle s) (triangles s)"

text \<open>Every index stored in the map of intersections is an index into the vertex sequence.\<close>

definition cache_valid :: "Slicer \<Rightarrow> bool" where
  "cache_valid s \<longleftrightarrow> (\<forall>m \<in> ran (intersections s). valid_index s m)"

subsection \<open>An edge and the plane\<close>

text \<open>
  The value of \<open>\<lambda>\<close> that \<^verbatim>\<open>get_intersection\<close> computes for the edge \<open>{i, j}\<close>, after its swap; the
  test of line 199 turned around (\<open>\<lambda>\<close> is finite, not below \<open>precision\<close> and not above
  \<open>1 - precision\<close>); and the vertex that line 208 appends.
\<close>

definition edge_lambda :: "Slicer \<Rightarrow> int \<Rightarrow> int \<Rightarrow> quotient" where
  "edge_lambda s i j = get_lambda s (positions s ! nat (min i j)) (positions s ! nat (max i j))"

definition crosses :: "quotient \<Rightarrow> bool" where
  "crosses x =
     (case x of
        Finite lam \<Rightarrow> precision \<le> lam \<and> lam \<le> 1 - precision
      | Infinite \<Rightarrow> False
      | NaN \<Rightarrow> False)"

definition split_point :: "Slicer \<Rightarrow> int \<Rightarrow> int \<Rightarrow> Vector" where
  "split_point s i j =
     (let p = positions s ! nat (min i j); q = positions s ! nat (max i j)
      in case edge_lambda s i j of
           Finite lam \<Rightarrow> (lam * elem p 0 + (1 - lam) * elem q 0,
                          lam * elem p 1 + (1 - lam) * elem q 1,
                          lam * elem p 2 + (1 - lam) * elem q 2)
         | Infinite \<Rightarrow> q
         | NaN \<Rightarrow> q)"

text \<open>
  The specification's open interval: \<open>\<lambda>\<close> lies strictly inside
  \<open>(\<epsilon>, 1 - \<epsilon>)\<close>.
\<close>

definition strictly_inside :: "quotient \<Rightarrow> bool" where
  "strictly_inside x =
     (case x of
        Finite lam \<Rightarrow> precision < lam \<and> lam < 1 - precision
      | Infinite \<Rightarrow> False
      | NaN \<Rightarrow> False)"

text \<open>
  The glossary's plane: a point \<open>v\<close> is on the plane when \<open>dot(v - origin, normal) = 0\<close>.
\<close>

definition plane_distance :: "Slicer \<Rightarrow> Vector \<Rightarrow> real" where
  "plane_distance s v =
       (elem v 0 - elem (origin s) 0) * elem (normal s) 0
     + (elem v 1 - elem (origin s) 1) * elem (normal s) 1
     + (elem v 2 - elem (origin s) 2) * elem (normal s) 2"

text \<open>
  The distance of the vertex \<open>i\<close> (0 when \<open>i\<close> is no index of a vertex), and two vertices that lie
  strictly on opposite sides of the plane.
\<close>

definition distance_at :: "Slicer \<Rightarrow> int \<Rightarrow> real" where
  "distance_at s i = (if valid_index s i then plane_distance s (positions s ! nat i) else 0)"

definition opposite :: "Slicer \<Rightarrow> int \<Rightarrow> int \<Rightarrow> bool" where
  "opposite s a b \<longleftrightarrow> distance_at s a * distance_at s b < 0"

subsection \<open>Counting edges\<close>

text \<open>
  \<open>found_crossing s a b\<close>: \<open>a\<close> and \<open>b\<close> index vertices of \<open>s\<close>, and the \<open>\<lambda>\<close> that \<^verbatim>\<open>get_lambda\<close>
  returns for the edge passes the test of line 199, so that \<^verbatim>\<open>get_intersection\<close> answers with a
  vertex. \<open>crossing_pairs s t\<close> is the number of such edges among the three of the triangle \<open>t\<close>,
  and \<open>total_crossing_pairs s\<close> the number of pairs of a triangle of the buffer and such an edge
  of it.
\<close>

definition found_crossing :: "Slicer \<Rightarrow> int \<Rightarrow> int \<Rightarrow> bool" where
  "found_crossing s a b \<longleftrightarrow> valid_index s a \<and> valid_index s b \<and> crosses (edge_lambda s a b)"

definition crossing_pairs :: "Slicer \<Rightarrow> Triangle \<Rightarrow> nat" where
  "crossing_pairs s t =
       (if found_crossing s (elem t 1) (elem t 2) then 1 else 0)
     + (if found_crossing s (elem t 2) (elem t 0) then 1 else 0)
     + (if found_crossing s (elem t 0) (elem t 1) then 1 else 0)"

definition total_crossing_pairs :: "Slicer \<Rightarrow> nat" where
  "total_crossing_pairs s = sum_list (map (crossing_pairs s) (triangles s))"



subsection \<open>What happens in the course of one cut\<close>

text \<open>
  Between the clearing of the map and the end of \<^verbatim>\<open>cut\<close> the object changes only through calls
  of \<^verbatim>\<open>get_intersection\<close> and of \<^verbatim>\<open>do_triangle\<close>. \<open>during_cut s s'\<close>: the object, in state \<open>s\<close>,
  is in state \<open>s'\<close> after some number of such calls, with any arguments.
\<close>

inductive during_cut :: "Slicer \<Rightarrow> Slicer \<Rightarrow> bool" where
  same: "during_cut s s"
| query: "during_cut s s1 \<Longrightarrow> get_intersection s1 a b = Inr (m, s2) \<Longrightarrow> during_cut s s2"
| visit: "during_cut s s1 \<Longrightarrow> do_triangle s1 tid = Inr (split, s2) \<Longrightarrow> during_cut s s2"

text \<open>What a call leaves alone: the plane, the vertices there are, the entries of the map.\<close>

definition extends :: "Slicer \<Rightarrow> Slicer \<Rightarrow> bool" where
  "extends s s' \<longleftrightarrow>
     origin s' = origin s \<and> normal s' = normal s \<and>
     length (positions s) \<le> length (positions s') \<and>
     take (length (positions s)) (positions s') = positions s \<and>
     intersections s \<subseteq>\<^sub>m intersections s'"






subsection \<open>Observations of a finished cut\<close>

definition cut_positions :: "Slicer \<Rightarrow> Vector list option" where
  "cut_positions s = (case cut s of Some (Inr r) \<Rightarrow> Some (positions r) | _ \<Rightarrow> None)"

definition cut_triangles :: "Slicer \<Rightarrow> Triangle list option" where
  "cut_triangles s = (case cut s of Some (Inr r) \<Rightarrow> Some (triangles r) | _ \<Rightarrow> None)"

section \<open>Concrete meshes\<close>

text \<open>The round-trip scenario: one triangle, cut by the plane \<open>x = 1\<close>.\<close>

definition scenario :: Slicer where
  "scenario =
     \<lparr>positions = [(0, 0, 0), (2, 0, 0), (0, 2, 0)],
      triangles = [(0, 1, 2)],
      origin = (1, 0, 0),
      normal = (1, 0, 0),
      intersections = Map.empty\<rparr>"

text \<open>The same three vertices under four triangles, cut by the same plane.\<close>

definition fan :: Slicer where
  "fan = scenario\<lparr>triangles := [(0, 1, 2), (1, 2, 0), (2, 0, 1), (0, 2, 1)]\<rparr>"

text \<open>An edge from \<open>(1, 0, 0)\<close> to the world origin, cut by the plane \<open>x = 0.00001\<close>.\<close>

definition boundary :: Slicer where
  "boundary =
     \<lparr>positions = [(1, 0, 0), (0, 0, 0), (0, 1, 0)],
      triangles = [(0, 1, 2)],
      origin = (0.00001, 0, 0),
      normal = (1, 0, 0),
      intersections = Map.empty\<rparr>"

text \<open>The same edge, cut by the plane \<open>x = 0.000005\<close>.\<close>

definition below_boundary :: Slicer where
  "below_boundary = boundary\<lparr>origin := (0.000005, 0, 0)\<rparr>"

text \<open>A triangle that the plane \<open>x = 0\<close> through the world origin crosses.\<close>

definition through_origin :: Slicer where
  "through_origin =
     \<lparr>positions = [(- 1, 0, 0), (1, 0, 0), (0, 1, 0)],
      triangles = [(0, 1, 2)],
      origin = (0, 0, 0),
      normal = (1, 0, 0),
      intersections = Map.empty\<rparr>"

text \<open>The object after \<^verbatim>\<open>get_intersection(0, 1)\<close> on \<open>boundary\<close>.\<close>

definition boundary_split :: Slicer where
  "boundary_split =
     boundary\<lparr>positions := positions boundary @ [(0.00001, 0, 0)],
              intersections := [(0, 1) \<mapsto> 3]\<rparr>"

text \<open>
  The object after \<^verbatim>\<open>get_intersection(1, 2)\<close> on \<open>fan\<close>, and after \<^verbatim>\<open>do_triangle(1)\<close> on
  that.
\<close>

definition fan_queried :: Slicer where
  "fan_queried =
     fan\<lparr>positions := positions fan @ [(1, 1, 0)],
         intersections := [(1, 2) \<mapsto> 3]\<rparr>"

definition fan_visited :: Slicer where
  "fan_visited =
     fan_queried\<lparr>positions := positions fan_queried @ [(1, 0, 0)],
                 triangles := [(0, 1, 2), (2, 4, 1), (2, 0, 1), (0, 2, 1), (2, 0, 4)],
                 intersections := [(1, 2) \<mapsto> 3, (0, 1) \<mapsto> 4]\<rparr>"

section \<open>What \<^verbatim>\<open>get_intersection\<close> does\<close>

lemma get_intersection_sorted:
  "get_intersection s i j =
     (case at_index (positions s) (min i j) of
        Inl e \<Rightarrow> Inl e
      | Inr p \<Rightarrow>
     (case at_index (positions s) (max i j) of
        Inl e \<Rightarrow> Inl e
      | Inr q \<Rightarrow>
          if crosses (get_lambda s p q) then
            (case intersections s (min i j, max i j) of
               Some found \<Rightarrow> Inr (found, s)
             | None \<Rightarrow>
                 Inr (int (length (positions s)),
                      s\<lparr>positions := positions s @ [split_point s i j],
                        intersections := (intersections s)((min i j, max i j) \<mapsto>
                                           int (length (positions s)))\<rparr>))
          else Inr (- 1, s)))"
proof (cases "j < i")
  case True
  then have m: "min i j = j" "max i j = i" by simp_all
  show ?thesis using True unfolding m
    by (simp add: get_intersection_def Let_def crosses_def split_point_def edge_lambda_def m at_index_def
        split: sum.splits quotient.splits option.splits)
next
  case False
  then have m: "min i j = i" "max i j = j" by simp_all
  show ?thesis using False unfolding m
    by (simp add: get_intersection_def Let_def crosses_def split_point_def edge_lambda_def m at_index_def
        split: sum.splits quotient.splits option.splits)
qed

lemma at_index_valid:
  "valid_index s i \<Longrightarrow> at_index (positions s) i = Inr (positions s ! nat i)"
  by (simp add: valid_index_def at_index_def)

lemma at_index_invalid:
  "\<not> valid_index s i \<Longrightarrow> at_index (positions s) i = Inl OutOfRange"
  by (simp add: valid_index_def at_index_def)

lemma valid_index_min_max:
  "valid_index s (min i j) \<and> valid_index s (max i j) \<longleftrightarrow> valid_index s i \<and> valid_index s j"
  by (auto simp: valid_index_def min_def max_def)

lemma get_intersection_out_of_range:
  "\<not> valid_index s i \<or> \<not> valid_index s j \<Longrightarrow> get_intersection s i j = Inl OutOfRange"
  using valid_index_min_max [of s i j]
  by (cases "valid_index s (min i j)")
     (auto simp: get_intersection_sorted at_index_invalid at_index_valid)

lemma get_intersection_none:
  "valid_index s i \<Longrightarrow> valid_index s j \<Longrightarrow> \<not> crosses (edge_lambda s i j) \<Longrightarrow>
   get_intersection s i j = Inr (- 1, s)"
  using valid_index_min_max [of s i j]
  by (simp add: get_intersection_sorted at_index_valid edge_lambda_def)

lemma get_intersection_cached:
  "valid_index s i \<Longrightarrow> valid_index s j \<Longrightarrow> crosses (edge_lambda s i j) \<Longrightarrow>
   intersections s (min i j, max i j) = Some m \<Longrightarrow>
   get_intersection s i j = Inr (m, s)"
  using valid_index_min_max [of s i j]
  by (simp add: get_intersection_sorted at_index_valid edge_lambda_def)

lemma get_intersection_new:
  "valid_index s i \<Longrightarrow> valid_index s j \<Longrightarrow> crosses (edge_lambda s i j) \<Longrightarrow>
   intersections s (min i j, max i j) = None \<Longrightarrow>
   get_intersection s i j =
     Inr (int (length (positions s)),
          s\<lparr>positions := positions s @ [split_point s i j],
            intersections := (intersections s)((min i j, max i j) \<mapsto> int (length (positions s)))\<rparr>)"
  using valid_index_min_max [of s i j]
  by (simp add: get_intersection_sorted at_index_valid edge_lambda_def)

lemma split_point_commute: "split_point s i j = split_point s j i"
  by (simp add: split_point_def edge_lambda_def min.commute max.commute)

lemma get_intersection_commute: "get_intersection s i j = get_intersection s j i"
  by (simp only: get_intersection_sorted split_point_commute [of s i j]
      min.commute [of i j] max.commute [of i j])


lemma get_intersection_Inr:
  assumes "get_intersection s i j = Inr (m, s')"
  shows "valid_index s i \<and> valid_index s j \<and>
         ((\<not> crosses (edge_lambda s i j) \<and> m = - 1 \<and> s' = s) \<or>
          (crosses (edge_lambda s i j) \<and> intersections s (min i j, max i j) = Some m \<and> s' = s) \<or>
          (crosses (edge_lambda s i j) \<and> intersections s (min i j, max i j) = None \<and>
           m = int (length (positions s)) \<and>
           s' = s\<lparr>positions := positions s @ [split_point s i j],
                   intersections := (intersections s)((min i j, max i j) \<mapsto>
                                      int (length (positions s)))\<rparr>))"
proof -
  have v: "valid_index s i" "valid_index s j"
    using assms get_intersection_out_of_range [of s i j] by auto
  show ?thesis
  proof (cases "crosses (edge_lambda s i j)")
    case False
    with v assms show ?thesis by (simp add: get_intersection_none)
  next
    case True
    show ?thesis
    proof (cases "intersections s (min i j, max i j)")
      case None
      with v True assms show ?thesis by (auto simp: get_intersection_new)
    next
      case (Some f)
      with v True assms show ?thesis by (simp add: get_intersection_cached)
    qed
  qed
qed

lemma get_intersection_frame:
  assumes "get_intersection s i j = Inr (m, s')"
  shows "triangles s' = triangles s" "origin s' = origin s" "normal s' = normal s"
    "take (length (positions s)) (positions s') = positions s"
    "length (positions s) \<le> length (positions s')"
    "length (positions s') \<le> length (positions s) + 1"
    "intersections s \<subseteq>\<^sub>m intersections s'"
  using get_intersection_Inr [OF assms] by (auto simp: map_le_def)

lemma get_intersection_minus_one:
  "get_intersection s i j = Inr (- 1, s') \<Longrightarrow> s' = s"
  by (drule get_intersection_Inr) auto

section \<open>What the calls preserve\<close>

lemma plane_distance_update [simp]:
  "plane_distance (s\<lparr>positions := ps\<rparr>) v = plane_distance s v"
  "plane_distance (s\<lparr>triangles := ts\<rparr>) v = plane_distance s v"
  "plane_distance (s\<lparr>intersections := c\<rparr>) v = plane_distance s v"
  by (simp_all add: plane_distance_def)

lemma valid_index_update [simp]:
  "valid_index (s\<lparr>triangles := ts\<rparr>) i = valid_index s i"
  "valid_index (s\<lparr>intersections := c\<rparr>) i = valid_index s i"
  by (simp_all add: valid_index_def)





lemma valid_index_nat: "valid_index s i \<Longrightarrow> nat i < length (positions s)"
  by (simp add: valid_index_def nat_less_iff)






subsection \<open>The triangle buffer\<close>

lemma push_triangle_simps [simp]:
  "triangles (push_triangle s t) = triangles s @ [t]"
  "positions (push_triangle s t) = positions s"
  "origin (push_triangle s t) = origin s"
  "normal (push_triangle s t) = normal s"
  "intersections (push_triangle s t) = intersections s"
  by (simp_all add: push_triangle_def)

lemma set_triangle_simps [simp]:
  "triangles (set_triangle s tid t) = (triangles s)[nat tid := t]"
  "positions (set_triangle s tid t) = positions s"
  "origin (set_triangle s tid t) = origin s"
  "normal (set_triangle s tid t) = normal s"
  "intersections (set_triangle s tid t) = intersections s"
  by (simp_all add: set_triangle_def)

lemma valid_index_cong: "positions s' = positions s \<Longrightarrow> valid_index s' i = valid_index s i"
  by (simp add: valid_index_def)


lemma valid_triangle_elem: "valid_triangle s t \<Longrightarrow> valid_index s (elem t n)"
  by (cases t) (simp add: valid_triangle_def)




section \<open>What \<^verbatim>\<open>do_triangle\<close> does\<close>

lemma do_triangle_from_done: "\<not> n < 3 \<Longrightarrow> do_triangle_from n s tid = Inr (False, s)"
  by (subst do_triangle_from.simps) simp

lemma do_triangle_from_no_triangle:
  "n < 3 \<Longrightarrow> at_index (triangles s) tid = Inl e \<Longrightarrow> do_triangle_from n s tid = Inl e"
  by (subst do_triangle_from.simps) simp

lemma do_triangle_from_no_vertex:
  "n < 3 \<Longrightarrow> at_index (triangles s) tid = Inr t \<Longrightarrow>
   get_intersection s (elem t ((n + 1) mod 3)) (elem t ((n + 2) mod 3)) = Inl e \<Longrightarrow>
   do_triangle_from n s tid = Inl e"
  by (subst do_triangle_from.simps) (simp add: Let_def)

lemma do_triangle_from_edge:
  "n < 3 \<Longrightarrow> at_index (triangles s) tid = Inr t \<Longrightarrow>
   get_intersection s (elem t ((n + 1) mod 3)) (elem t ((n + 2) mod 3)) = Inr (m, s1) \<Longrightarrow>
   do_triangle_from n s tid =
     (if m \<noteq> - 1
      then Inr (True, set_triangle (push_triangle s1 (elem t n, elem t ((n + 1) mod 3), m)) tid
                        (elem t n, m, elem t ((n + 2) mod 3)))
      else do_triangle_from (n + 1) s tid)"
  by (subst do_triangle_from.simps) (auto simp: Let_def dest: get_intersection_minus_one)


text \<open>A visit that does not split leaves the object as it was.\<close>

lemma do_triangle_from_False:
  "do_triangle_from n s tid = Inr (False, s') \<Longrightarrow> s' = s"
proof (induction "3 - n" arbitrary: n)
  case 0
  then show ?case by (simp add: do_triangle_from_done)
next
  case (Suc d)
  then have n: "n < 3" by simp
  show ?case
  proof (cases "at_index (triangles s) tid")
    case (Inl e)
    with n Suc.prems show ?thesis by (simp add: do_triangle_from_no_triangle)
  next
    case (Inr t)
    show ?thesis
    proof (cases "get_intersection s (elem t ((n + 1) mod 3)) (elem t ((n + 2) mod 3))")
      case (Inl e)
      with n Inr Suc.prems show ?thesis by (simp add: do_triangle_from_no_vertex)
    next
      case r: (Inr ms)
      obtain m s1 where ms: "ms = (m, s1)" by (cases ms)
      from Suc.prems have "m = - 1 \<and> do_triangle_from (n + 1) s tid = Inr (False, s')"
        by (simp add: do_triangle_from_edge [OF n Inr r [unfolded ms]] split: if_splits)
      with Suc.hyps(1) [of "n + 1"] Suc.hyps(2) show ?thesis by simp
    qed
  qed
qed

text \<open>A visit that splits: the edge that was split, and the state of the object.\<close>

lemma do_triangle_from_True:
  "do_triangle_from n s tid = Inr (True, s') \<Longrightarrow>
   \<exists>k t m s1. n \<le> k \<and> k < 3 \<and> at_index (triangles s) tid = Inr t \<and>
     get_intersection s (elem t ((k + 1) mod 3)) (elem t ((k + 2) mod 3)) = Inr (m, s1) \<and>
     m \<noteq> - 1 \<and>
     s' = set_triangle (push_triangle s1 (elem t k, elem t ((k + 1) mod 3), m)) tid
            (elem t k, m, elem t ((k + 2) mod 3))"
proof (induction "3 - n" arbitrary: n)
  case 0
  then show ?case by (simp add: do_triangle_from_done)
next
  case (Suc d)
  then have n: "n < 3" by simp
  show ?case
  proof (cases "at_index (triangles s) tid")
    case (Inl e)
    with n Suc.prems show ?thesis by (simp add: do_triangle_from_no_triangle)
  next
    case (Inr t)
    show ?thesis
    proof (cases "get_intersection s (elem t ((n + 1) mod 3)) (elem t ((n + 2) mod 3))")
      case (Inl e)
      with n Inr Suc.prems show ?thesis by (simp add: do_triangle_from_no_vertex)
    next
      case r: (Inr ms)
      obtain m s1 where ms: "ms = (m, s1)" by (cases ms)
      note edge = do_triangle_from_edge [OF n Inr r [unfolded ms]]
      show ?thesis
      proof (cases "m = - 1")
        case True
        with Suc.prems edge have "do_triangle_from (n + 1) s tid = Inr (True, s')" by simp
        with Suc.hyps(1) [of "n + 1"] Suc.hyps(2)
        obtain k t' m' s1' where "n + 1 \<le> k" "k < 3" "at_index (triangles s) tid = Inr t'"
          "get_intersection s (elem t' ((k + 1) mod 3)) (elem t' ((k + 2) mod 3)) = Inr (m', s1')"
          "m' \<noteq> - 1"
          "s' = set_triangle (push_triangle s1' (elem t' k, elem t' ((k + 1) mod 3), m')) tid
                  (elem t' k, m', elem t' ((k + 2) mod 3))"
          by force
        then show ?thesis by (intro exI [of _ k] exI [of _ t'] exI [of _ m'] exI [of _ s1']) simp
      next
        case False
        with Suc.prems edge
        have "s' = set_triangle (push_triangle s1 (elem t n, elem t ((n + 1) mod 3), m)) tid
                     (elem t n, m, elem t ((n + 2) mod 3))"
          by simp
        with n Inr r ms False show ?thesis
          by (intro exI [of _ n] exI [of _ t] exI [of _ m] exI [of _ s1]) simp
      qed
    qed
  qed
qed




lemma at_index_Inr:
  "at_index xs i = Inr x \<longleftrightarrow> 0 \<le> i \<and> nat i < length xs \<and> x = xs ! nat i"
  by (auto simp: at_index_def nat_less_iff)

lemma mesh_valid_nth: "mesh_valid s \<Longrightarrow> n < length (triangles s) \<Longrightarrow> valid_triangle s (triangles s ! n)"
  by (simp add: mesh_valid_def list_all_length)



section \<open>The loop of \<^verbatim>\<open>cut\<close>\<close>

lemma cut_loop_end: "\<not> tid < length (triangles s) \<Longrightarrow> cut_loop s tid = Some (Inr s)"
  by (subst cut_loop.simps) simp

lemma cut_loop_step:
  "tid < length (triangles s) \<Longrightarrow> do_triangle s (int tid) = Inr (split, s') \<Longrightarrow>
   cut_loop s tid = cut_loop s' (tid + (if split then 0 else 1))"
  by (subst cut_loop.simps) simp

lemma cut_loop_error:
  "tid < length (triangles s) \<Longrightarrow> do_triangle s (int tid) = Inl e \<Longrightarrow>
   cut_loop s tid = Some (Inl e)"
  by (subst cut_loop.simps) simp

lemma cut_origin:
  "elem (origin s) 0 = 0 \<and> elem (origin s) 1 = 0 \<and> elem (origin s) 2 = 0 \<Longrightarrow>
   cut s = Some (Inr (s\<lparr>intersections := Map.empty\<rparr>))"
  by (simp add: cut_def Let_def)

lemma cut_elsewhere:
  "\<not> (elem (origin s) 0 = 0 \<and> elem (origin s) 1 = 0 \<and> elem (origin s) 2 = 0) \<Longrightarrow>
   cut s = cut_loop (s\<lparr>intersections := Map.empty\<rparr>) 0"
  by (auto simp: cut_def Let_def)

lemma valid_triangle_update [simp]:
  "valid_triangle (s\<lparr>intersections := c\<rparr>) = valid_triangle s"
  by (simp add: fun_eq_iff valid_triangle_def)

lemma cleared_valid:
  "mesh_valid (s\<lparr>intersections := Map.empty\<rparr>) = mesh_valid s"
  "cache_valid (s\<lparr>intersections := Map.empty\<rparr>)"
  by (simp_all add: mesh_valid_def cache_valid_def)


section \<open>Triangles that no edge of which crosses the plane\<close>

lemma do_triangle_from_no_crossing:
  assumes "at_index (triangles s) tid = Inr t" and "valid_triangle s t"
    and "\<And>k. k < 3 \<Longrightarrow> \<not> crosses (edge_lambda s (elem t ((k + 1) mod 3)) (elem t ((k + 2) mod 3)))"
  shows "do_triangle_from n s tid = Inr (False, s)"
proof (induction "3 - n" arbitrary: n)
  case 0
  then show ?case by (simp add: do_triangle_from_done)
next
  case (Suc d)
  then have n: "n < 3" by simp
  have "valid_index s (elem t ((n + 1) mod 3))" "valid_index s (elem t ((n + 2) mod 3))"
    using assms(2) by (rule valid_triangle_elem)+
  then have "get_intersection s (elem t ((n + 1) mod 3)) (elem t ((n + 2) mod 3)) = Inr (- 1, s)"
    using assms(3) [OF n] by (rule get_intersection_none)
  from do_triangle_from_edge [OF n assms(1) this] Suc.hyps(1) [of "n + 1"] Suc.hyps(2)
  show ?case by simp
qed

lemma zero_normal_no_crossing: 
  assumes "elem (normal s) 0 = 0" and "elem (normal s) 1 = 0" and "elem (normal s) 2 = 0"
  shows "\<not> crosses (edge_lambda s i j)"
  using assms by (simp add: edge_lambda_def get_lambda_def divide_double_def crosses_def)

lemma cut_loop_no_crossing:
  assumes "mesh_valid s" and "\<And>i j. \<not> crosses (edge_lambda s i j)"
  shows "cut_loop s tid = Some (Inr s)"
proof (induction "length (triangles s) - tid" arbitrary: tid)
  case 0
  then show ?case by (simp add: cut_loop_end)
next
  case (Suc d)
  then have t: "tid < length (triangles s)" by simp
  then have "at_index (triangles s) (int tid) = Inr (triangles s ! tid)"
    by (simp add: at_index_Inr)
  then have "do_triangle s (int tid) = Inr (False, s)"
    unfolding do_triangle_def
    by (rule do_triangle_from_no_crossing) (simp_all add: mesh_valid_nth [OF assms(1) t] assms(2))
  from cut_loop_step [OF t this] Suc.hyps(1) [of "tid + 1"] Suc.hyps(2)
  show ?case by simp
qed

section \<open>The course of a cut\<close>

lemma extends_refl: "extends s s"
  by (simp add: extends_def)

lemma extends_trans:
  assumes "extends s s1" and "extends s1 s2"
  shows "extends s s2"
proof -
  have "take (length (positions s)) (positions s2) =
        take (length (positions s)) (take (length (positions s1)) (positions s2))"
    using assms(1) by (simp add: extends_def min_def)
  also have "\<dots> = positions s" using assms by (simp add: extends_def)
  finally show ?thesis
    using assms by (auto simp: extends_def intro: map_le_trans)
qed

lemma get_intersection_extends:
  "get_intersection s i j = Inr (m, s') \<Longrightarrow> extends s s'"
  by (simp add: extends_def get_intersection_frame)

lemma do_triangle_False: "do_triangle s tid = Inr (False, s') \<Longrightarrow> s' = s"
  unfolding do_triangle_def by (rule do_triangle_from_False)

lemma do_triangle_extends:
  assumes "do_triangle s tid = Inr (split, s')"
  shows "extends s s'"
proof (cases split)
  case False
  with assms have "s' = s" by (simp add: do_triangle_False)
  then show ?thesis by (simp add: extends_refl)
next
  case True
  with assms have "do_triangle_from 0 s tid = Inr (True, s')" by (simp add: do_triangle_def)
  from do_triangle_from_True [OF this]
  obtain k t m s1 where
    g: "get_intersection s (elem t ((k + 1) mod 3)) (elem t ((k + 2) mod 3)) = Inr (m, s1)"
    and s': "s' = set_triangle (push_triangle s1 (elem t k, elem t ((k + 1) mod 3), m)) tid
                    (elem t k, m, elem t ((k + 2) mod 3))"
    by blast
  from get_intersection_extends [OF g] show ?thesis by (simp add: extends_def s')
qed

lemma during_cut_extends: "during_cut s s' \<Longrightarrow> extends s s'"
proof (induction rule: during_cut.induct)
  case (same s)
  show ?case by (rule extends_refl)
next
  case (query s s1 a b m s2)
  from query.IH get_intersection_extends [OF query.hyps(2)] show ?case by (rule extends_trans)
next
  case (visit s s1 tid split s2)
  from visit.IH do_triangle_extends [OF visit.hyps(2)] show ?case by (rule extends_trans)
qed

lemma extends_vertex:
  assumes "extends s s'" and "valid_index s i"
  shows "valid_index s' i" and "positions s' ! nat i = positions s ! nat i"
proof -
  from assms show "valid_index s' i" by (simp add: extends_def valid_index_def)
  have "positions s ! nat i = take (length (positions s)) (positions s') ! nat i"
    using assms(1) by (simp add: extends_def)
  also have "\<dots> = positions s' ! nat i"
    using valid_index_nat [OF assms(2)] by simp
  finally show "positions s' ! nat i = positions s ! nat i" by simp
qed

lemma extends_edge_lambda:
  assumes "extends s s'" and "valid_index s i" and "valid_index s j"
  shows "edge_lambda s' i j = edge_lambda s i j"
proof -
  from assms(2,3) have "valid_index s (min i j)" "valid_index s (max i j)"
    using valid_index_min_max [of s i j] by simp_all
  with assms(1) show ?thesis
    by (simp add: edge_lambda_def extends_vertex(2) get_lambda_def) (simp add: extends_def)
qed

text \<open>The visit entered at \<open>n\<close> splits at the first edge from \<open>n\<close> on that yields a vertex.\<close>

lemma do_triangle_from_first:
  assumes "k < 3" and "at_index (triangles s) tid = Inr t"
    and "\<And>n. n < k \<Longrightarrow>
           get_intersection s (elem t ((n + 1) mod 3)) (elem t ((n + 2) mod 3)) = Inr (- 1, s)"
    and "get_intersection s (elem t ((k + 1) mod 3)) (elem t ((k + 2) mod 3)) = Inr (m, s1)"
    and "m \<noteq> - 1"
  shows "n \<le> k \<Longrightarrow>
         do_triangle_from n s tid =
           Inr (True, set_triangle (push_triangle s1 (elem t k, elem t ((k + 1) mod 3), m)) tid
                        (elem t k, m, elem t ((k + 2) mod 3)))"
proof (induction "k - n" arbitrary: n)
  case 0
  then have "n = k" by simp
  with assms(5) show ?case by (simp add: do_triangle_from_edge [OF assms(1,2,4)])
next
  case (Suc d)
  then have n: "n < k" "n < 3" using assms(1) by simp_all
  from do_triangle_from_edge [OF n(2) assms(2) assms(3) [OF n(1)]]
  have "do_triangle_from n s tid = do_triangle_from (n + 1) s tid" by simp
  with Suc.hyps(1) [of "n + 1"] Suc.hyps(2) n(1) show ?case by simp
qed




section \<open>Counting the edges that are found crossing\<close>



lemma found_crossing_cleared:
  "found_crossing (s\<lparr>intersections := c\<rparr>) a b = found_crossing s a b"
  by (simp add: found_crossing_def edge_lambda_def get_lambda_def)

lemma crossing_pairs_cleared:
  "crossing_pairs (s\<lparr>intersections := c\<rparr>) = crossing_pairs s"
  by (simp add: fun_eq_iff crossing_pairs_def found_crossing_cleared)

lemma total_crossing_pairs_cleared:
  "total_crossing_pairs (s\<lparr>intersections := c\<rparr>) = total_crossing_pairs s"
  by (simp add: total_crossing_pairs_def crossing_pairs_cleared)




section \<open>The run of the loop\<close>






section \<open>Exact arithmetic: a vertex inserted by the cut lies on the plane\<close>

text \<open>
  Nothing above uses more of \<^verbatim>\<open>get_lambda\<close> than that its result depends on the two points and
  on the plane only. This section alone rests on the sums, products and quotients being the
  exact ones: then \<open>\<lambda>\<close> is \<open>- d q / (d p - d q)\<close> for the plane distances \<open>d\<close> of the end points, an
  edge that is found crossing has its end points strictly on opposite sides, and the vertex
  inserted on it lies on the plane, so that the two provisos of the termination theorem hold. It
  is used for the concrete meshes only, whose coordinates and quotients are such that the exact
  values are the computed ones.
\<close>

lemma get_lambda_distance:
  "get_lambda s p q =
     divide_double (- plane_distance s q) (plane_distance s p - plane_distance s q)"
  by (simp add: get_lambda_def plane_distance_def algebra_simps)

lemma crosses_divide:
  assumes "crosses (divide_double (- b) (a - b))"
  shows "a * b < 0"
proof -
  have eps: "0 < precision" by (simp add: precision_def)
  from assms have d: "a - b \<noteq> 0"
    by (auto simp: crosses_def divide_double_def split: if_splits)
  with assms eps have l: "0 < (- b) / (a - b)" "(- b) / (a - b) < 1"
    by (auto simp: crosses_def divide_double_def)
  show ?thesis
  proof (cases "0 < a - b")
    case True
    with l have "0 < - b" "- b < a - b" by (simp_all add: field_simps)
    then have "b < 0" "0 < a" by simp_all
    then show ?thesis by (simp add: mult_pos_neg)
  next
    case False
    with d have n: "a - b < 0" by simp
    with l have "- b < 0" "a - b < - b" by (simp_all add: field_simps)
    then have "0 < b" "a < 0" by simp_all
    then show ?thesis by (simp add: mult_neg_pos)
  qed
qed

lemma crosses_opposite_sides:
  "crosses (get_lambda s p q) \<Longrightarrow> plane_distance s p * plane_distance s q < 0"
  by (simp add: get_lambda_distance crosses_divide)







text \<open>No triangle has its three edges found crossing.\<close>

lemma found_crossing_opposite:
  assumes "found_crossing s a b"
  shows "plane_distance s (positions s ! nat a) * plane_distance s (positions s ! nat b) < 0"
proof -
  from assms have "crosses (get_lambda s (positions s ! nat (min a b)) (positions s ! nat (max a b)))"
    by (simp add: found_crossing_def edge_lambda_def)
  from crosses_opposite_sides [OF this] show ?thesis
    by (cases "a \<le> b") (simp_all add: min_def max_def mult.commute)
qed

lemma crossing_pairs_exact: "crossing_pairs s t \<le> 2"
proof -
  obtain a b c where t: "t = (a, b, c)" by (cases t)
  have "\<not> (found_crossing s b c \<and> found_crossing s c a \<and> found_crossing s a b)"
  proof
    assume f: "found_crossing s b c \<and> found_crossing s c a \<and> found_crossing s a b"
    define x where "x = plane_distance s (positions s ! nat a)"
    define y where "y = plane_distance s (positions s ! nat b)"
    define z where "z = plane_distance s (positions s ! nat c)"
    from f have "y * z < 0" "z * x < 0" "x * y < 0"
      by (simp_all add: found_crossing_opposite x_def y_def z_def)
    then show False by (auto simp: mult_less_0_iff)
  qed
  then show ?thesis by (auto simp: t crossing_pairs_def)
qed

section \<open>The claims\<close>

text \<open>The equations that evaluate the source's functions on the concrete meshes.\<close>

lemmas concrete_simps =
  scenario_def fan_def boundary_def below_boundary_def through_origin_def
  boundary_split_def fan_queried_def fan_visited_def
  get_intersection_def get_lambda_def divide_double_def at_index_def precision_def
  do_triangle_def do_triangle_from.simps push_triangle_def set_triangle_def Let_def
  edge_lambda_def valid_index_def

text \<open>
  C1 (as amended): cutting the mesh with the vertices \<open>(0,0,0)\<close>, \<open>(2,0,0)\<close>, \<open>(0,2,0)\<close> and the
  single triangle \<open>(0,1,2)\<close> by the plane with origin \<open>(1,0,0)\<close> and normal \<open>(1,0,0)\<close> creates
  exactly two new vertices, at \<open>(1,1,0)\<close> and \<open>(1,0,0)\<close>, and ends with 5 vertices and 3
  triangles.
\<close>

theorem cut_scenario:
  "cut_positions scenario = Some (positions scenario @ [(1, 1, 0), (1, 0, 0)]) \<and>
   map_option length (cut_positions scenario) = Some 5 \<and>
   cut_triangles scenario = Some [(0, 3, 2), (3, 4, 1), (3, 0, 4)] \<and>
   map_option length (cut_triangles scenario) = Some 3"
  by code_simp

text \<open>
  C1 as the specification states it expects 2 triangles at the end; the triangle has two edges
  across the plane and is split twice, which leaves 3.
\<close>

theorem cut_scenario_counterexample:
  "cut_triangles scenario = Some [(0, 3, 2), (3, 4, 1), (3, 0, 4)] \<and>
   map_option length (cut_triangles scenario) \<noteq> Some 2"
  by code_simp

text \<open>
  C2: with a zero normal vector, \<^verbatim>\<open>cut\<close> of a mesh (every triangle of which has valid indices,
  as the data model requires) returns normally and leaves the vertex sequence and the triangle
  sequence as they were; the degenerate plane is no error.
\<close>

theorem cut_zero_normal:
  assumes "mesh_valid s" and "normal s = (0, 0, 0)"
  shows "cut s = Some (Inr (s\<lparr>intersections := Map.empty\<rparr>)) \<and>
         cut_positions s = Some (positions s) \<and> cut_triangles s = Some (triangles s)"
proof -
  define s0 where "s0 = s\<lparr>intersections := Map.empty\<rparr>"
  have "mesh_valid s0" using assms(1) by (simp add: s0_def cleared_valid)
  moreover have "\<not> crosses (edge_lambda s0 i j)" for i j
    by (rule zero_normal_no_crossing) (simp_all add: s0_def assms(2))
  ultimately have "cut_loop s0 0 = Some (Inr s0)" by (rule cut_loop_no_crossing)
  then have "cut s = Some (Inr s0)"
    by (cases "elem (origin s) 0 = 0 \<and> elem (origin s) 1 = 0 \<and> elem (origin s) 2 = 0")
       (simp_all add: cut_origin cut_elsewhere s0_def)
  then show ?thesis by (simp add: cut_positions_def cut_triangles_def s0_def)
qed

theorem cut_zero_normal_witness:
  "mesh_valid (scenario\<lparr>normal := (0, 0, 0)\<rparr>) \<and>
   cut_positions (scenario\<lparr>normal := (0, 0, 0)\<rparr>) = Some [(0, 0, 0), (2, 0, 0), (0, 2, 0)] \<and>
   cut_triangles (scenario\<lparr>normal := (0, 0, 0)\<rparr>) = Some [(0, 1, 2)]"
proof -
  have v: "mesh_valid (scenario\<lparr>normal := (0, 0, 0)\<rparr>)"
    by (simp add: mesh_valid_def valid_triangle_def valid_index_def scenario_def)
  have n: "normal (scenario\<lparr>normal := (0, 0, 0)\<rparr>) = (0, 0, 0)" by simp
  from v cut_zero_normal [OF v n] show ?thesis by (simp add: scenario_def)
qed

text \<open>
  C3: if the plane origin is exactly \<open>(0, 0, 0)\<close>, \<^verbatim>\<open>cut\<close> returns right after clearing the map of
  intersections, whatever the normal and whatever the mesh: the vertex and triangle sequences are
  as they were.
\<close>

theorem cut_origin_at_zero:
  "origin s = (0, 0, 0) \<Longrightarrow>
   cut s = Some (Inr (s\<lparr>intersections := Map.empty\<rparr>)) \<and>
   cut_positions s = Some (positions s) \<and> cut_triangles s = Some (triangles s)"
  by (simp add: cut_origin cut_positions_def cut_triangles_def)

theorem cut_origin_at_zero_witness:
  "origin through_origin = (0, 0, 0) \<and> normal through_origin = (1, 0, 0) \<and>
   opposite through_origin 0 1 \<and>
   cut_positions through_origin = Some [(- 1, 0, 0), (1, 0, 0), (0, 1, 0)] \<and>
   cut_triangles through_origin = Some [(0, 1, 2)]"
proof -
  have o: "origin through_origin = (0, 0, 0)" by (simp add: through_origin_def)
  have "opposite through_origin 0 1"
    by (simp add: opposite_def distance_at_def valid_index_def plane_distance_def through_origin_def)
  with o cut_origin_at_zero [OF o] show ?thesis by (simp add: through_origin_def)
qed

text \<open>
  C4 (as amended): an edge is treated as crossing the plane, and is split, only when \<open>\<lambda>\<close> is
  finite and lies in the closed interval \<open>[\<epsilon>, 1 - \<epsilon>]\<close> with \<open>\<epsilon> = 0.00001\<close>, end points
  included; a crossing with \<open>\<lambda> = 0.000005\<close> is rejected and produces no split.
\<close>

theorem crossing_tolerance:
  "(get_intersection s i j = Inr (m, s') \<and> m \<noteq> - 1 \<longrightarrow>
      (\<exists>lam. edge_lambda s i j = Finite lam \<and> precision \<le> lam \<and> lam \<le> 1 - precision)) \<and>
   precision = 1 / 100000 \<and>
   (valid_index t a \<and> valid_index t b \<and> edge_lambda t a b = Finite 0.000005 \<longrightarrow>
      get_intersection t a b = Inr (- 1, t))"
proof (intro conjI impI)
  assume "get_intersection s i j = Inr (m, s') \<and> m \<noteq> - 1"
  with get_intersection_Inr [of s i j m s'] have "crosses (edge_lambda s i j)" by auto
  then show "\<exists>lam. edge_lambda s i j = Finite lam \<and> precision \<le> lam \<and> lam \<le> 1 - precision"
    by (cases "edge_lambda s i j") (simp_all add: crosses_def)
next
  show "precision = 1 / 100000" by (simp add: precision_def)
next
  assume a: "valid_index t a \<and> valid_index t b \<and> edge_lambda t a b = Finite 0.000005"
  then have "\<not> crosses (edge_lambda t a b)" by (simp add: crosses_def precision_def)
  with a show "get_intersection t a b = Inr (- 1, t)" by (simp add: get_intersection_none)
qed

theorem crossing_tolerance_witness:
  "get_intersection boundary 0 1 = Inr (3, boundary_split) \<and> (3 :: int) \<noteq> - 1 \<and>
   edge_lambda boundary 0 1 = Finite precision \<and>
   valid_index below_boundary 0 \<and> valid_index below_boundary 1 \<and>
   edge_lambda below_boundary 0 1 = Finite 0.000005 \<and>
   get_intersection below_boundary 0 1 = Inr (- 1, below_boundary)"
proof -
  have g: "get_intersection boundary 0 1 = Inr (3, boundary_split)"
    by (simp add: concrete_simps)
  have v: "valid_index below_boundary 0" "valid_index below_boundary 1"
    "edge_lambda below_boundary 0 1 = Finite 0.000005"
    by (simp_all add: concrete_simps)
  have e: "edge_lambda boundary 0 1 = Finite precision"
    by (simp add: concrete_simps)
  from g v e crossing_tolerance [of boundary 0 1 3 boundary_split below_boundary 0 1]
  show ?thesis by simp
qed

text \<open>
  C4 as the specification states it excludes both end points of the interval. The source rejects
  \<open>\<lambda> < \<epsilon>\<close> and \<open>\<lambda> > 1 - \<epsilon>\<close> only: the edge from \<open>(1,0,0)\<close> to \<open>(0,0,0)\<close> meets the plane
  \<open>x = 0.00001\<close> at \<open>\<lambda> = \<epsilon>\<close> exactly, which is not strictly inside the interval, and is split.
\<close>

theorem crossing_tolerance_counterexample:
  "get_intersection boundary 0 1 = Inr (3, boundary_split) \<and>
   positions boundary_split = positions boundary @ [(0.00001, 0, 0)] \<and>
   edge_lambda boundary 0 1 = Finite precision \<and>
   \<not> strictly_inside (edge_lambda boundary 0 1)"
  by (simp add: concrete_simps strictly_inside_def)

text \<open>
  C5: once a query of the edge \<open>{i, j}\<close> has returned a split vertex \<open>m\<close>, every later query of
  that edge in the same cut, with the arguments in either order and whatever calls of
  \<^verbatim>\<open>get_intersection\<close> and \<^verbatim>\<open>do_triangle\<close> came between, returns the same \<open>m\<close> and leaves the
  object as it is. The first query has appended one vertex if the edge was not in the map, and
  none otherwise: one vertex for that edge in all.
\<close>

theorem edge_split_once:
  assumes "get_intersection s i j = Inr (m, s1)" and "m \<noteq> - 1" and "during_cut s1 s2"
  shows "get_intersection s2 i j = Inr (m, s2) \<and> get_intersection s2 j i = Inr (m, s2) \<and>
         length (positions s1) =
           length (positions s) + (if intersections s (min i j, max i j) = None then 1 else 0)"
proof -
  from get_intersection_Inr [OF assms(1)] assms(2)
  have v: "valid_index s i" "valid_index s j" and c: "crosses (edge_lambda s i j)"
    and k: "intersections s1 (min i j, max i j) = Some m"
    and l: "length (positions s1) =
           length (positions s) + (if intersections s (min i j, max i j) = None then 1 else 0)"
    by auto
  have e: "extends s s2"
    using get_intersection_extends [OF assms(1)] during_cut_extends [OF assms(3)]
    by (rule extends_trans)
  have "intersections s1 \<subseteq>\<^sub>m intersections s2"
    using during_cut_extends [OF assms(3)] by (simp add: extends_def)
  with k have "intersections s2 (min i j, max i j) = Some m"
    by (auto simp: map_le_def dom_def)
  moreover have "crosses (edge_lambda s2 i j)"
    using c by (simp add: extends_edge_lambda [OF e v])
  ultimately have "get_intersection s2 i j = Inr (m, s2)"
    using extends_vertex(1) [OF e v(1)] extends_vertex(1) [OF e v(2)]
    by (simp add: get_intersection_cached)
  with l show ?thesis by (simp add: get_intersection_commute [of s2 j i])
qed

theorem edge_split_once_witness:
  "get_intersection fan 1 2 = Inr (3, fan_queried) \<and> (3 :: int) \<noteq> - 1 \<and>
   during_cut fan_queried fan_visited \<and>
   get_intersection fan_visited 1 2 = Inr (3, fan_visited) \<and>
   get_intersection fan_visited 2 1 = Inr (3, fan_visited) \<and>
   length (positions fan_queried) = length (positions fan) + 1"
proof -
  have g: "get_intersection fan 1 2 = Inr (3, fan_queried)"
    by (simp add: concrete_simps)
  have "do_triangle fan_queried 1 = Inr (True, fan_visited)"
    by (simp add: concrete_simps)
  with during_cut.same have d: "during_cut fan_queried fan_visited"
    by (rule during_cut.visit)
  have n: "(3 :: int) \<noteq> - 1" by simp
  have "intersections fan (min 1 2, max 1 2) = None" by (simp add: concrete_simps)
  with g d edge_split_once [OF g n d] show ?thesis by simp
qed

text \<open>
  C6: at a visit of the triangle \<open>tid\<close>, \<open>t\<close>, let the edge \<open>(j, k)\<close> opposite the vertex \<open>i\<close>, in
  the order (\<open>t[1], t[2]\<close>), (\<open>t[2], t[0]\<close>), (\<open>t[0], t[1]\<close>), be the first that yields a split
  vertex \<open>m\<close>. Then \<^verbatim>\<open>do_triangle\<close> returns true; the object is as that one query has left it,
  but for the triangles: \<open>(i, j, m)\<close> is appended and the triangle \<open>tid\<close> is \<open>(i, m, k)\<close>, no other
  edge having been acted on; and the loop of \<^verbatim>\<open>cut\<close> goes on at the same \<open>tid\<close> with that object.
  In any state \<open>u\<close>, a visit of a triangle \<open>tid'\<close> that does not split changes nothing, and the
  loop goes on at \<open>tid' + 1\<close>; and the loop ends, with the object as it is, once its index has
  left the triangle buffer.
\<close>

theorem first_edge_split:
  "(at_index (triangles s) (int tid) = Inr t \<and> n < 3 \<and>
    (\<forall>n' < n. get_intersection s (elem t ((n' + 1) mod 3)) (elem t ((n' + 2) mod 3))
                 = Inr (- 1, s)) \<and>
    get_intersection s (elem t ((n + 1) mod 3)) (elem t ((n + 2) mod 3)) = Inr (m, s1) \<and>
    m \<noteq> - 1 \<longrightarrow>
      do_triangle s (int tid) =
        Inr (True, s1\<lparr>triangles := (triangles s)[tid := (elem t n, m, elem t ((n + 2) mod 3))]
                                       @ [(elem t n, elem t ((n + 1) mod 3), m)]\<rparr>) \<and>
      cut_loop s tid =
        cut_loop (s1\<lparr>triangles := (triangles s)[tid := (elem t n, m, elem t ((n + 2) mod 3))]
                                       @ [(elem t n, elem t ((n + 1) mod 3), m)]\<rparr>) tid) \<and>
   (tid' < length (triangles u) \<and> do_triangle u (int tid') = Inr (False, u') \<longrightarrow>
      u' = u \<and> cut_loop u tid' = cut_loop u (tid' + 1)) \<and>
   (length (triangles u) \<le> tid' \<longrightarrow> cut_loop u tid' = Some (Inr u))"
proof (intro conjI impI)
  assume a: "at_index (triangles s) (int tid) = Inr t \<and> n < 3 \<and>
    (\<forall>n' < n. get_intersection s (elem t ((n' + 1) mod 3)) (elem t ((n' + 2) mod 3))
                 = Inr (- 1, s)) \<and>
    get_intersection s (elem t ((n + 1) mod 3)) (elem t ((n + 2) mod 3)) = Inr (m, s1) \<and>
    m \<noteq> - 1"
  then have t: "at_index (triangles s) (int tid) = Inr t" and n: "n < 3"
    and e: "\<And>n'. n' < n \<Longrightarrow>
              get_intersection s (elem t ((n' + 1) mod 3)) (elem t ((n' + 2) mod 3)) = Inr (- 1, s)"
    and g: "get_intersection s (elem t ((n + 1) mod 3)) (elem t ((n + 2) mod 3)) = Inr (m, s1)"
    and m: "m \<noteq> - 1"
    by blast+
  from t have tid: "tid < length (triangles s)" by (simp add: at_index_Inr)
  have "set_triangle (push_triangle s1 (elem t n, elem t ((n + 1) mod 3), m)) (int tid)
          (elem t n, m, elem t ((n + 2) mod 3)) =
        s1\<lparr>triangles := (triangles s)[tid := (elem t n, m, elem t ((n + 2) mod 3))]
                                          @ [(elem t n, elem t ((n + 1) mod 3), m)]\<rparr>"
    using tid by (simp add: set_triangle_def push_triangle_def get_intersection_frame(1) [OF g]
        list_update_append)
  with do_triangle_from_first [OF n t e g m, of 0]
  show d: "do_triangle s (int tid) =
           Inr (True, s1\<lparr>triangles := (triangles s)[tid := (elem t n, m, elem t ((n + 2) mod 3))]
                                          @ [(elem t n, elem t ((n + 1) mod 3), m)]\<rparr>)"
    by (simp add: do_triangle_def)
  from cut_loop_step [OF tid d]
  show "cut_loop s tid =
        cut_loop (s1\<lparr>triangles := (triangles s)[tid := (elem t n, m, elem t ((n + 2) mod 3))]
                                       @ [(elem t n, elem t ((n + 1) mod 3), m)]\<rparr>) tid"
    by simp
next
  assume a: "tid' < length (triangles u) \<and> do_triangle u (int tid') = Inr (False, u')"
  then show u: "u' = u" by (auto dest: do_triangle_False)
  from a cut_loop_step [of tid' u False u'] u
  show "cut_loop u tid' = cut_loop u (tid' + 1)" by simp
next
  assume "length (triangles u) \<le> tid'"
  then show "cut_loop u tid' = Some (Inr u)" by (simp add: cut_loop_end)
qed

theorem first_edge_split_witness:
  "at_index (triangles fan_queried) (int 1) = Inr (1, 2, 0) \<and>
   get_intersection fan_queried 2 0 = Inr (- 1, fan_queried) \<and>
   get_intersection fan_queried 0 1 = Inr (4, fan_visited\<lparr>triangles := triangles fan_queried\<rparr>) \<and>
   do_triangle fan_queried (int 1) = Inr (True, fan_visited) \<and>
   triangles fan_visited = (triangles fan_queried)[1 := (2, 4, 1)] @ [(2, 0, 4)] \<and>
   cut_loop fan_queried 1 = cut_loop fan_visited 1 \<and>
   do_triangle below_boundary (int 0) = Inr (False, below_boundary) \<and>
   cut_loop below_boundary 0 = cut_loop below_boundary 1 \<and>
   cut_loop below_boundary 1 = Some (Inr below_boundary)"
proof -
  have t: "at_index (triangles fan_queried) (int 1) = Inr (1, 2, 0)"
    by (simp add: concrete_simps)
  have e0: "\<forall>n' < 1. get_intersection fan_queried (elem (1, 2, 0) ((n' + 1) mod 3))
              (elem (1, 2, 0) ((n' + 2) mod 3)) = Inr (- 1, fan_queried)"
    by (simp add: concrete_simps)
  have e1: "get_intersection fan_queried (elem (1, 2, 0 :: int) ((1 + 1) mod 3))
              (elem (1, 2, 0) ((1 + 2) mod 3)) = Inr (4, fan_visited\<lparr>triangles := triangles fan_queried\<rparr>)"
    by (simp add: concrete_simps)
  have s: "fan_visited\<lparr>triangles := triangles fan_queried\<rparr>
             \<lparr>triangles := (triangles fan_queried)
                 [1 := (elem (1, 2, 0 :: int) 1, 4, elem (1, 2, 0) ((1 + 2) mod 3))]
                 @ [(elem (1, 2, 0) 1, elem (1, 2, 0) ((1 + 1) mod 3), 4)]\<rparr> = fan_visited"
    by (simp add: concrete_simps)
  have b: "do_triangle below_boundary (int 0) = Inr (False, below_boundary)"
    by (simp add: concrete_simps)
  have l: "length (triangles below_boundary) = 1" by (simp add: concrete_simps)
  note f = first_edge_split [of fan_queried 1 "(1, 2, 0)" 1 4
      "fan_visited\<lparr>triangles := triangles fan_queried\<rparr>" 0 below_boundary below_boundary]
  note f' = first_edge_split [of fan_queried 1 "(1, 2, 0)" 1 4
      "fan_visited\<lparr>triangles := triangles fan_queried\<rparr>" 1 below_boundary below_boundary]
  from f t e0 e1 have 1: "do_triangle fan_queried (int 1) = Inr (True, fan_visited)"
    "cut_loop fan_queried 1 = cut_loop fan_visited 1"
    unfolding s by simp_all
  from f b l have 2: "cut_loop below_boundary 0 = cut_loop below_boundary 1" by simp
  from f' l have 3: "cut_loop below_boundary 1 = Some (Inr below_boundary)" by simp
  have 4: "triangles fan_visited = (triangles fan_queried)[1 := (2, 4, 1)] @ [(2, 0, 4)]"
    "get_intersection fan_queried 2 0 = Inr (- 1, fan_queried)"
    "get_intersection fan_queried 0 1 = Inr (4, fan_visited\<lparr>triangles := triangles fan_queried\<rparr>)"
    by (simp_all add: concrete_simps)
  from t 1 2 3 4 b show ?thesis by simp
qed








end
